theory Spec2Isabelle
  imports Main
begin

section \<open>The take-turns schedule (main.py)\<close>

text \<open>
  The program keeps two module-level lists, \<open>USERS\<close> and \<open>DATES\<close>, and a handful of
  functions that read and rebind them. The model passes the two lists around as a record
  and returns, for every function that touches the globals, both the outcome (a raised
  exception or a return value) and the globals as they are when the function is left.

  A \<open>datetime.date\<close> is represented by its proleptic Gregorian ordinal
  (\<open>date.toordinal()\<close>); a date object exists for the ordinals 1 (0001-01-01) to
  3652059 (9999-12-31), and arithmetic that leaves this range raises \<open>OverflowError\<close>.
  The clock (\<open>datetime.date.today()\<close>) is a parameter. The three configuration
  constants are read from the process environment when the module is loaded.
  \<open>save_data\<close> writes a file or a bucket object and does not touch the globals; it is
  left out of the model.
\<close>

subsection \<open>Exceptions\<close>

datatype error =
    StopIteration
  | KeyError
  | ValueError
  | TypeError
  | AttributeError
  | ZeroDivisionError
  | IndexError
  | OverflowError
  | Abort nat

subsection \<open>State\<close>

record schedule =
  USERS :: "string list"
  DATES :: "int list"

subsection \<open>Configuration\<close>

text \<open>
  \<open>os.environ.get(name, default)\<close> gives the string stored in the environment when the
  variable is set and the default otherwise, so each constant holds either a string or
  its default (the integers 0 and 7, the boolean \<open>False\<close>). Nothing converts the
  strings.
\<close>

datatype pyval = PInt int | PBool bool | PStr string

record config =
  ASSIGNMENT_WEEKDAY_START :: pyval
  ASSIGNMENT_INTERVAL_DAYS :: pyval
  ALLOW_ASSIGNMENT_TO_START_TODAY :: pyval

definition load_config :: "(string \<Rightarrow> string option) \<Rightarrow> config" where
  "load_config environ =
     \<lparr>ASSIGNMENT_WEEKDAY_START =
        (case environ ''ASSIGNMENT_WEEKDAY_START'' of None \<Rightarrow> PInt 0 | Some v \<Rightarrow> PStr v),
      ASSIGNMENT_INTERVAL_DAYS =
        (case environ ''ASSIGNMENT_INTERVAL_DAYS'' of None \<Rightarrow> PInt 7 | Some v \<Rightarrow> PStr v),
      ALLOW_ASSIGNMENT_TO_START_TODAY =
        (case environ ''ALLOW_ASSIGNMENT_TO_START_TODAY'' of
           None \<Rightarrow> PBool False | Some v \<Rightarrow> PStr v)\<rparr>"

text \<open>A value as an operand of \<open>-\<close> and \<open>%\<close> against an integer and as the argument
  of \<open>timedelta\<close>: an integer counts as itself, a boolean as 0 or 1, and a string raises
  \<open>TypeError\<close>.\<close>

fun number :: "pyval \<Rightarrow> error + int" where
  "number (PInt n) = Inr n"
| "number (PBool b) = Inr (if b then 1 else 0)"
| "number (PStr _) = Inl TypeError"

text \<open>The truth value of a constant in a condition.\<close>

fun truthy :: "pyval \<Rightarrow> bool" where
  "truthy (PInt n) = (n \<noteq> 0)"
| "truthy (PBool b) = b"
| "truthy (PStr v) = (v \<noteq> [])"

subsection \<open>Dates and durations\<close>

definition valid_date :: "int \<Rightarrow> bool" where
  "valid_date d \<longleftrightarrow> 1 \<le> d \<and> d \<le> 3652059"

definition weekday :: "int \<Rightarrow> int" where
  "weekday d = (d + 6) mod 7"

text \<open>\<open>datetime.timedelta(days)\<close> accepts at most 999999999 days in either
  direction.\<close>

definition timedelta :: "int \<Rightarrow> error + int" where
  "timedelta days = (if \<bar>days\<bar> \<le> 999999999 then Inr days else Inl OverflowError)"

text \<open>\<open>d + delta\<close> for a date and a duration in days.\<close>

definition date_add :: "int \<Rightarrow> int \<Rightarrow> error + int" where
  "date_add d delta =
     (if 0 < d + delta \<and> d + delta \<le> 3652059 then Inr (d + delta) else Inl OverflowError)"

text \<open>\<open>d + datetime.timedelta(days)\<close>.\<close>

definition shift :: "int \<Rightarrow> int \<Rightarrow> error + int" where
  "shift d days = (case timedelta days of Inl e \<Rightarrow> Inl e | Inr delta \<Rightarrow> date_add d delta)"

subsection \<open>Python helpers\<close>

text \<open>\<open>next(i for i, x in enumerate(xs) if p x)\<close>: the first index, or no value when
  the generator is exhausted (Python raises \<open>StopIteration\<close>).\<close>

fun first_index :: "('a \<Rightarrow> bool) \<Rightarrow> 'a list \<Rightarrow> nat option" where
  "first_index p [] = None"
| "first_index p (x # xs) =
     (if p x then Some 0 else map_option Suc (first_index p xs))"

text \<open>\<open>xs.index(v)\<close> raises \<open>ValueError\<close> when \<open>v\<close> is absent.\<close>

definition list_index :: "'a list \<Rightarrow> 'a \<Rightarrow> error + nat" where
  "list_index xs v =
     (case first_index (\<lambda>x. x = v) xs of None \<Rightarrow> Inl ValueError | Some i \<Rightarrow> Inr i)"

text \<open>A list built element by element (a comprehension, or a loop of \<open>append\<close>): the
  first element whose computation raises ends the construction.\<close>

fun collect :: "('a \<Rightarrow> error + 'b) \<Rightarrow> 'a list \<Rightarrow> error + 'b list" where
  "collect f [] = Inr []"
| "collect f (x # xs) =
     (case f x of
        Inl e \<Rightarrow> Inl e
      | Inr y \<Rightarrow> (case collect f xs of Inl e \<Rightarrow> Inl e | Inr ys \<Rightarrow> Inr (y # ys)))"

subsection \<open>Start date and initialisation\<close>

definition get_first_assignment_date :: "config \<Rightarrow> int \<Rightarrow> error + int" where
  "get_first_assignment_date cfg today =
     (case number (ASSIGNMENT_WEEKDAY_START cfg) of
        Inl e \<Rightarrow> Inl e
      | Inr start \<Rightarrow>
          (case number (ASSIGNMENT_INTERVAL_DAYS cfg) of
             Inl e \<Rightarrow> Inl e
           | Inr interval \<Rightarrow>
               if interval = 0 then Inl ZeroDivisionError
               else
                 let diff_days = (start - weekday today) mod interval;
                     diff_days =
                       (if diff_days = 0 \<and> \<not> truthy (ALLOW_ASSIGNMENT_TO_START_TODAY cfg)
                        then interval else diff_days)
                 in shift today diff_days))"

text \<open>In the loop, \<open>i * ASSIGNMENT_INTERVAL_DAYS\<close> with a string constant would give a
  string, which \<open>timedelta\<close> refuses with \<open>TypeError\<close>.\<close>

definition initialize_assignment ::
    "config \<Rightarrow> int \<Rightarrow> string list \<Rightarrow> error + (string list \<times> int list)" where
  "initialize_assignment cfg today users_list =
     (case get_first_assignment_date cfg today of
        Inl e \<Rightarrow> Inl e
      | Inr start_date \<Rightarrow>
          (case collect (\<lambda>i. case number (ASSIGNMENT_INTERVAL_DAYS cfg) of
                                Inl e \<Rightarrow> Inl e
                              | Inr interval \<Rightarrow> shift start_date (int i * interval))
                        [0 ..< length users_list] of
             Inl e \<Rightarrow> Inl e
           | Inr dates \<Rightarrow> Inr (users_list, dates)))"

definition regenerate ::
    "config \<Rightarrow> int \<Rightarrow> string list \<Rightarrow> schedule \<Rightarrow> (error + unit) \<times> schedule" where
  "regenerate cfg today users s =
     (case initialize_assignment cfg today users of
        Inl e \<Rightarrow> (Inl e, s)
      | Inr (us, ds) \<Rightarrow> (Inr (), \<lparr>USERS = us, DATES = ds\<rparr>))"

subsection \<open>Adding a user\<close>

text \<open>\<open>USERS.append\<close> runs before the date is computed, so an exception raised while
  computing the date leaves the name appended and the dates as they were.\<close>

definition add_user ::
    "config \<Rightarrow> int \<Rightarrow> string \<Rightarrow> schedule \<Rightarrow> (error + unit) \<times> schedule" where
  "add_user cfg today username s =
     (let s1 = s\<lparr>USERS := USERS s @ [username]\<rparr> in
      if length (DATES s1) > 0 then
        (case (case number (ASSIGNMENT_INTERVAL_DAYS cfg) of
                 Inl e \<Rightarrow> Inl e
               | Inr interval \<Rightarrow> shift (last (DATES s1)) interval) of
           Inl e \<Rightarrow> (Inl e, s1)
         | Inr d \<Rightarrow> (Inr (), s1\<lparr>DATES := DATES s1 @ [d]\<rparr>))
      else
        (case get_first_assignment_date cfg today of
           Inl e \<Rightarrow> (Inl e, s1)
         | Inr d \<Rightarrow> (Inr (), s1\<lparr>DATES := [d]\<rparr>)))"

subsection \<open>Delaying\<close>

text \<open>\<open>DATES\<close> is rebound only after the new list has been built, so an exception
  raised while shifting a date leaves it as it was.\<close>

definition delay ::
    "int \<Rightarrow> bool \<Rightarrow> int \<Rightarrow> schedule \<Rightarrow> (error + unit) \<times> schedule" where
  "delay today delay_all delay_days s =
     (case first_index (\<lambda>date. date > today) (DATES s) of
        None \<Rightarrow> (Inl StopIteration, s)
      | Some next_index \<Rightarrow>
          if delay_all then
            (case collect (\<lambda>x. shift x delay_days) (drop next_index (DATES s)) of
               Inl e \<Rightarrow> (Inl e, s)
             | Inr delayed_dates \<Rightarrow>
                 (Inr (), s\<lparr>DATES := take next_index (DATES s) @ delayed_dates\<rparr>))
          else if int next_index = int (length (DATES s)) - 1 then
            (case shift (DATES s ! next_index) delay_days of
               Inl e \<Rightarrow> (Inl e, s)
             | Inr d \<Rightarrow> (Inr (), s\<lparr>DATES := take next_index (DATES s) @ [d]\<rparr>))
          else
            (let day_to_delay = DATES s ! next_index;
                 day_after = DATES s ! (next_index + 1)
             in if delay_days \<ge> day_after - day_to_delay then (Inl (Abort 400), s)
                else
                  (case shift (DATES s ! next_index) delay_days of
                     Inl e \<Rightarrow> (Inl e, s)
                   | Inr d \<Rightarrow>
                       (Inr (), s\<lparr>DATES := take next_index (DATES s) @ [d]
                                               @ drop (next_index + 1) (DATES s)\<rparr>))))"

subsection \<open>Swapping\<close>

text \<open>The tuple assignment evaluates both reads first, then stores into position
  \<open>user_2_index\<close> and after that into position \<open>user_1_index\<close>.\<close>

definition swap :: "string \<Rightarrow> string \<Rightarrow> schedule \<Rightarrow> (error + unit) \<times> schedule" where
  "swap user_1 user_2 s =
     (case list_index (USERS s) user_1 of
        Inl e \<Rightarrow> (Inl e, s)
      | Inr user_1_index \<Rightarrow>
          (case list_index (USERS s) user_2 of
             Inl e \<Rightarrow> (Inl e, s)
           | Inr user_2_index \<Rightarrow>
               (let a = USERS s ! user_1_index; b = USERS s ! user_2_index
                in (Inr (), s\<lparr>USERS := (USERS s)[user_2_index := a, user_1_index := b]\<rparr>))))"


subsection \<open>Calendar arithmetic of the datetime library\<close>

text \<open>
  ISO text is the one place where year, month and day of a date matter. The conversion
  between ordinals and (year, month, day) follows the library's \<open>_ord2ymd\<close> and
  \<open>_ymd2ord\<close>; the two tables are its \<open>_DAYS_IN_MONTH\<close> and \<open>_DAYS_BEFORE_MONTH\<close>.
\<close>

definition is_leap :: "int \<Rightarrow> bool" where
  "is_leap year \<longleftrightarrow> year mod 4 = 0 \<and> (year mod 100 \<noteq> 0 \<or> year mod 400 = 0)"

definition days_before_year :: "int \<Rightarrow> int" where
  "days_before_year year = (let y = year - 1 in y * 365 + y div 4 - y div 100 + y div 400)"

definition DAYS_IN_MONTH :: "int list" where
  "DAYS_IN_MONTH = [-1, 31, 28, 31, 30, 31, 30, 31, 31, 30, 31, 30, 31]"

definition DAYS_BEFORE_MONTH :: "int list" where
  "DAYS_BEFORE_MONTH = [-1, 0, 31, 59, 90, 120, 151, 181, 212, 243, 273, 304, 334]"

definition days_in_month :: "int \<Rightarrow> int \<Rightarrow> int" where
  "days_in_month year month =
     (if month = 2 \<and> is_leap year then 29 else DAYS_IN_MONTH ! nat month)"

definition days_before_month :: "int \<Rightarrow> int \<Rightarrow> int" where
  "days_before_month year month =
     DAYS_BEFORE_MONTH ! nat month + (if month > 2 \<and> is_leap year then 1 else 0)"

definition ymd2ord :: "int \<Rightarrow> int \<Rightarrow> int \<Rightarrow> int" where
  "ymd2ord year month day = days_before_year year + days_before_month year month + day"

definition ord2ymd :: "int \<Rightarrow> int \<times> int \<times> int" where
  "ord2ymd n0 =
     (let n = n0 - 1;
          n400 = n div 146097; n = n mod 146097;
          year = n400 * 400 + 1;
          n100 = n div 36524; n = n mod 36524;
          n4 = n div 1461; n = n mod 1461;
          n1 = n div 365; n = n mod 365;
          year = year + n100 * 100 + n4 * 4 + n1
      in if n1 = 4 \<or> n100 = 4 then (year - 1, 12, 31)
         else
           let leapyear = (n1 = 3 \<and> (n4 \<noteq> 24 \<or> n100 = 3));
               month = (n + 50) div 32;
               preceding = DAYS_BEFORE_MONTH ! nat month
                             + (if month > 2 \<and> leapyear then 1 else 0)
           in if preceding > n then
                (let month = month - 1;
                     preceding = preceding - (DAYS_IN_MONTH ! nat month
                                   + (if month = 2 \<and> leapyear then 1 else 0))
                 in (year, month, n - preceding + 1))
              else (year, month, n - preceding + 1))"

subsection \<open>ISO text of a date\<close>

definition digit_char :: "nat \<Rightarrow> char" where
  "digit_char k = ''0123456789'' ! k"

definition digit_value :: "char \<Rightarrow> nat option" where
  "digit_value c = first_index (\<lambda>x. x = c) ''0123456789''"

fun parse_digits :: "nat \<Rightarrow> string \<Rightarrow> nat option" where
  "parse_digits acc [] = Some acc"
| "parse_digits acc (c # cs) =
     (case digit_value c of None \<Rightarrow> None | Some k \<Rightarrow> parse_digits (10 * acc + k) cs)"

definition pad2 :: "int \<Rightarrow> string" where
  "pad2 v = [digit_char (nat v div 10 mod 10), digit_char (nat v mod 10)]"

definition pad4 :: "int \<Rightarrow> string" where
  "pad4 v = [digit_char (nat v div 1000 mod 10), digit_char (nat v div 100 mod 10),
             digit_char (nat v div 10 mod 10), digit_char (nat v mod 10)]"

text \<open>\<open>date.isoformat()\<close> is \<open>"%04d-%02d-%02d" % (year, month, day)\<close>; for a date
  object the year has at most four digits and month and day at most two.\<close>

definition isoformat :: "int \<Rightarrow> string" where
  "isoformat d = (case ord2ymd d of (year, month, day) \<Rightarrow>
                    pad4 year @ ''-'' @ pad2 month @ ''-'' @ pad2 day)"

text \<open>\<open>date.fromisoformat\<close> reads the form \<open>YYYY-MM-DD\<close> and raises \<open>ValueError\<close> for
  any other text and for a year, month or day out of range.\<close>

definition fromisoformat :: "string \<Rightarrow> error + int" where
  "fromisoformat dtstr =
     (if length dtstr \<noteq> 10 then Inl ValueError
      else case (parse_digits 0 (take 4 dtstr),
                 parse_digits 0 (take 2 (drop 5 dtstr)),
                 parse_digits 0 (drop 8 dtstr)) of
             (Some y, Some m, Some d) \<Rightarrow>
               (let year = int y; month = int m; day = int d in
                if dtstr ! 4 = CHR ''-'' \<and> dtstr ! 7 = CHR ''-''
                   \<and> 1 \<le> year \<and> year \<le> 9999 \<and> 1 \<le> month \<and> month \<le> 12
                   \<and> 1 \<le> day \<and> day \<le> days_in_month year month
                then Inr (ymd2ord year month day)
                else Inl ValueError)
           | _ \<Rightarrow> Inl ValueError)"

subsection \<open>Serialised data\<close>

text \<open>
  The values that \<open>data_to_dict\<close> and \<open>serialize_data\<close> build, and that \<open>json.loads\<close>
  returns, are strings, lists and dictionaries. A dictionary is an association list in
  insertion order with one entry per key. The text layer of \<open>json.dumps\<close> and
  \<open>json.loads\<close> belongs to the json library; the model works on the decoded document.
\<close>

datatype json = JStr string | JList "json list" | JDict "(string \<times> json) list"

text \<open>\<open>d[k] = v\<close> on a dictionary: an existing key keeps its place and takes the new
  value, a new key goes to the end.\<close>

fun dict_set :: "'k \<Rightarrow> 'v \<Rightarrow> ('k \<times> 'v) list \<Rightarrow> ('k \<times> 'v) list" where
  "dict_set k v [] = [(k, v)]"
| "dict_set k v ((k', v') # d) =
     (if k' = k then (k, v) # d else (k', v') # dict_set k v d)"

definition py_dict :: "('k \<times> 'v) list \<Rightarrow> ('k \<times> 'v) list" where
  "py_dict kvs = foldl (\<lambda>d (k, v). dict_set k v d) [] kvs"

text \<open>\<open>x[key]\<close> with a string key.\<close>

fun subscript :: "json \<Rightarrow> string \<Rightarrow> error + json" where
  "subscript (JDict kvs) key =
     (case map_of kvs key of None \<Rightarrow> Inl KeyError | Some v \<Rightarrow> Inr v)"
| "subscript (JList _) key = Inl TypeError"
| "subscript (JStr _) key = Inl TypeError"

definition serialize_dates :: "int list \<Rightarrow> string list" where
  "serialize_dates dates_list = map isoformat dates_list"

fun deserialize_dates :: "json list \<Rightarrow> error + int list" where
  "deserialize_dates [] = Inr []"
| "deserialize_dates (x # xs) =
     (case x of
        JStr t \<Rightarrow>
          (case fromisoformat t of
             Inl e \<Rightarrow> Inl e
           | Inr d \<Rightarrow> (case deserialize_dates xs of Inl e \<Rightarrow> Inl e | Inr ds \<Rightarrow> Inr (d # ds)))
      | _ \<Rightarrow> Inl TypeError)"

definition data_to_dict :: "string list \<Rightarrow> int list \<Rightarrow> bool \<Rightarrow> json" where
  "data_to_dict users dates wide =
     (let s_dates = serialize_dates dates in
      if wide then
        JList (map (\<lambda>(name, date). JDict [(''name'', JStr name), (''date'', JStr date)])
                   (zip users s_dates))
      else JDict (py_dict (zip users (map JStr s_dates))))"

definition serialize_data :: "string list \<Rightarrow> int list \<Rightarrow> bool \<Rightarrow> json" where
  "serialize_data users dates wide = JDict [(''assignments'', data_to_dict users dates wide)]"

definition deserialize_data :: "json \<Rightarrow> error + (string list \<times> int list)" where
  "deserialize_data input =
     (case subscript input ''assignments'' of
        Inl e \<Rightarrow> Inl e
      | Inr (JDict kvs) \<Rightarrow>
          (let users = map fst kvs; dates_str = map snd kvs in
           case deserialize_dates dates_str of
             Inl e \<Rightarrow> Inl e
           | Inr dates \<Rightarrow> Inr (users, dates))
      | Inr _ \<Rightarrow> Inl AttributeError)"

subsection \<open>Looking a user up and deleting\<close>

text \<open>\<open>get_user\<close> reads the date out of the dictionary built by \<open>data_to_dict\<close>, whose
  values are the ISO strings of the dates.\<close>

definition get_user :: "string \<Rightarrow> schedule \<Rightarrow> error + (string list \<times> json list)" where
  "get_user username s =
     (let data_dict = data_to_dict (USERS s) (DATES s) False in
      case subscript data_dict username of
        Inl e \<Rightarrow> Inl e
      | Inr v \<Rightarrow> Inr ([username], [v]))"

text \<open>\<open>v <= d\<close> for a \<open>datetime.date\<close> \<open>d\<close>: a string, a list and a dictionary do not
  compare with a date (both \<open>__le__\<close> and the reflected \<open>__ge__\<close> return
  \<open>NotImplemented\<close>), and Python raises \<open>TypeError\<close>.\<close>

fun le_date :: "json \<Rightarrow> int \<Rightarrow> error + bool" where
  "le_date (JStr _) d = Inl TypeError"
| "le_date (JList _) d = Inl TypeError"
| "le_date (JDict _) d = Inl TypeError"

definition delete_user :: "int \<Rightarrow> string \<Rightarrow> schedule \<Rightarrow> (error + unit) \<times> schedule" where
  "delete_user today username s =
     (case get_user username s of
        Inl e \<Rightarrow> (Inl e, s)
      | Inr (users, dates) \<Rightarrow>
          (case dates of
             [] \<Rightarrow> (Inl IndexError, s)
           | assignment_date # _ \<Rightarrow>
               (case le_date assignment_date today of
                  Inl e \<Rightarrow> (Inl e, s)
                | Inr past \<Rightarrow>
                    (let s1 = s\<lparr>DATES := (if past then drop 1 (DATES s)
                                             else butlast (DATES s))\<rparr>
                     in if username \<in> set (USERS s1)
                        then (Inr (), s1\<lparr>USERS := remove1 username (USERS s1)\<rparr>)
                        else (Inl ValueError, s1)))))"

subsection \<open>Lookup\<close>

text \<open>\<open>xs[b:e]\<close> for indices that are not negative.\<close>

definition slice :: "'a list \<Rightarrow> nat \<Rightarrow> nat \<Rightarrow> 'a list" where
  "slice xs b e = drop b (take e xs)"

text \<open>\<open>period_end\<close> is a date or \<open>None\<close>; a date is always true in a condition.\<close>

definition lookup ::
    "int \<Rightarrow> int option \<Rightarrow> schedule \<Rightarrow> error + (string list \<times> int list)" where
  "lookup period_begin period_end s =
     (case first_index (\<lambda>date. date \<ge> period_begin) (DATES s) of
        None \<Rightarrow> Inr ([], [])
      | Some index_begin \<Rightarrow>
          (case period_end of
             None \<Rightarrow>
               if index_begin < length (USERS s)
               then Inr ([USERS s ! index_begin], [DATES s ! index_begin])
               else Inl IndexError
           | Some pe \<Rightarrow>
               (case first_index (\<lambda>date. date > pe) (DATES s) of
                  None \<Rightarrow> Inl StopIteration
                | Some index_end \<Rightarrow>
                    Inr (slice (USERS s) index_begin index_end,
                         slice (DATES s) index_begin index_end))))"

subsection \<open>The PUT branch of the user route\<close>

datatype response = Text string nat | Json json

text \<open>
  \<open>get_user_route\<close> with \<open>request.method == 'PUT'\<close>. The globals are loaded first when
  \<open>USERS\<close> is empty; \<open>stored\<close> is what \<open>read_data()\<close> returns.
\<close>

definition get_user_route_PUT ::
    "config \<Rightarrow> int \<Rightarrow> schedule \<Rightarrow> string \<Rightarrow> schedule \<Rightarrow> (error + response) \<times> schedule" where
  "get_user_route_PUT cfg today stored username s =
     (let s0 = (if USERS s = [] then stored else s) in
      if username \<in> set (USERS s0) then (Inr (Text ''User already in list'' 204), s0)
      else
        (case add_user cfg today username s0 of
           (Inl e, s1) \<Rightarrow> (Inl e, s1)
         | (Inr _, s1) \<Rightarrow> (Inr (Json (serialize_data (USERS s1) (DATES s1) True)), s1)))"

subsection \<open>Sequences of operations\<close>

text \<open>A call of one of the five mutating functions, together with the date the clock
  shows when it runs.\<close>

datatype op =
    Regenerate "string list"
  | AddUser string
  | DeleteUser string
  | Delay bool int
  | Swap string string

fun step :: "config \<Rightarrow> int \<times> op \<Rightarrow> schedule \<Rightarrow> schedule" where
  "step cfg (today, Regenerate users) s = snd (regenerate cfg today users s)"
| "step cfg (today, AddUser username) s = snd (add_user cfg today username s)"
| "step cfg (today, DeleteUser username) s = snd (delete_user today username s)"
| "step cfg (today, Delay delay_all delay_days) s = snd (delay today delay_all delay_days s)"
| "step cfg (today, Swap user_1 user_2) s = snd (swap user_1 user_2 s)"

fun run :: "config \<Rightarrow> (int \<times> op) list \<Rightarrow> schedule \<Rightarrow> schedule" where
  "run cfg [] s = s"
| "run cfg (c # cs) s = run cfg cs (step cfg c s)"

text \<open>Every call of \<open>add_user\<close> in the sequence returns without an exception.\<close>

fun adds_return :: "config \<Rightarrow> (int \<times> op) list \<Rightarrow> schedule \<Rightarrow> bool" where
  "adds_return cfg [] s = True"
| "adds_return cfg ((today, AddUser username) # cs) s =
     (fst (add_user cfg today username s) = Inr ()
      \<and> adds_return cfg cs (step cfg (today, AddUser username) s))"
| "adds_return cfg (c # cs) s = adds_return cfg cs (step cfg c s)"

text \<open>No delay in the sequence is negative.\<close>

fun forward_op :: "op \<Rightarrow> bool" where
  "forward_op (Delay delay_all delay_days) = (0 \<le> delay_days)"
| "forward_op _ = True"

definition delays_forward :: "(int \<times> op) list \<Rightarrow> bool" where
  "delays_forward cs = list_all (\<lambda>c. forward_op (snd c)) cs"

text \<open>A name is added only when it is absent, as the PUT route sees to, and a list of
  names is installed only when it has no repetition.\<close>

fun fresh_op :: "schedule \<Rightarrow> op \<Rightarrow> bool" where
  "fresh_op s (Regenerate users) = distinct users"
| "fresh_op s (AddUser username) = (username \<notin> set (USERS s))"
| "fresh_op s _ = True"

fun names_fresh :: "config \<Rightarrow> (int \<times> op) list \<Rightarrow> schedule \<Rightarrow> bool" where
  "names_fresh cfg [] s = True"
| "names_fresh cfg (c # cs) s = (fresh_op s (snd c) \<and> names_fresh cfg cs (step cfg c s))"

text \<open>The three properties the data model asks of a schedule.\<close>

definition invariant :: "schedule \<Rightarrow> bool" where
  "invariant s \<longleftrightarrow>
     length (USERS s) = length (DATES s) \<and> sorted (DATES s) \<and> distinct (USERS s)"

section \<open>Properties\<close>

subsection \<open>Facts about the helpers\<close>

lemma first_index_None: "first_index p xs = None \<longleftrightarrow> (\<forall>x \<in> set xs. \<not> p x)"
  by (induction xs) auto

lemma first_index_Some:
  "first_index p xs = Some i \<Longrightarrow> i < length xs \<and> p (xs ! i) \<and> (\<forall>j < i. \<not> p (xs ! j))"
proof (induction xs arbitrary: i)
  case Nil
  then show ?case by simp
next
  case (Cons x xs)
  show ?case
  proof (cases "p x")
    case True
    with Cons.prems show ?thesis by simp
  next
    case False
    with Cons.prems obtain k where k: "first_index p xs = Some k" "i = Suc k"
      by auto
    from Cons.IH [OF k(1)] False k(2) show ?thesis
      by (auto simp: nth_Cons split: nat.splits)
  qed
qed

lemma first_index_distinct:
  "distinct xs \<Longrightarrow> i < length xs \<Longrightarrow> first_index (\<lambda>x. x = xs ! i) xs = Some i"
proof (induction xs arbitrary: i)
  case Nil
  then show ?case by simp
next
  case (Cons x xs)
  then show ?case by (cases i) auto
qed

lemma list_index_Some:
  "first_index (\<lambda>x. x = v) xs = Some i \<Longrightarrow> list_index xs v = Inr i \<and> xs ! i = v \<and> i < length xs"
  using first_index_Some [of "\<lambda>x. x = v" xs i] by (simp add: list_index_def)

lemma list_update_back:
  "i < length xs \<Longrightarrow> j < length xs \<Longrightarrow>
     xs[j := xs ! i, i := xs ! j, i := xs ! i, j := xs ! j] = xs"
  by (rule nth_equalityI) (auto simp: nth_list_update)

lemma shift_Inr: "shift d k = Inr y \<Longrightarrow> y = d + k \<and> valid_date y"
  by (auto simp: shift_def timedelta_def date_add_def valid_date_def split: if_splits)

lemma shift_error: "shift d k = Inl e \<Longrightarrow> e = OverflowError"
  by (auto simp: shift_def timedelta_def date_add_def split: if_splits)

lemma shift_valid:
  "\<bar>k\<bar> \<le> 999999999 \<Longrightarrow> valid_date (d + k) \<Longrightarrow> shift d k = Inr (d + k)"
  by (simp add: shift_def timedelta_def date_add_def valid_date_def)

lemma collect_shift:
  "collect (\<lambda>x. shift x k) xs = Inr ys \<Longrightarrow> ys = map (\<lambda>x. x + k) xs"
proof (induction xs arbitrary: ys)
  case Nil
  then show ?case by simp
next
  case (Cons x xs)
  then show ?case
    by (auto split: sum.splits dest: shift_Inr)
qed

lemma collect_map:
  assumes "\<And>x y. f x = Inr y \<Longrightarrow> y = g x"
  shows "collect f xs = Inr ys \<Longrightarrow> ys = map g xs"
proof (induction xs arbitrary: ys)
  case Nil
  then show ?case by simp
next
  case (Cons x xs)
  then show ?case
    by (auto split: sum.splits dest: assms)
qed

subsection \<open>No upcoming assignment\<close>

text \<open>
  C5. When no date lies strictly after today, \<open>delay\<close> fails for either value of
  \<open>delay_all\<close> and any number of days: the \<open>next(...)\<close> call raises \<open>StopIteration\<close>, an
  exception different from the \<open>abort(400)\<close> of a delay that is too long, and the
  schedule is left as it was.
\<close>

theorem delay_no_upcoming:
  assumes "\<forall>d \<in> set (DATES s). d \<le> today"
  shows "delay today delay_all delay_days s = (Inl StopIteration, s)
         \<and> StopIteration \<noteq> Abort 400"
proof -
  from assms have "first_index (\<lambda>date. date > today) (DATES s) = None"
    by (simp add: first_index_None not_less)
  then show ?thesis by (simp add: delay_def)
qed

theorem delay_no_upcoming_witness:
  "delay 738011 True 3 \<lparr>USERS = [''ann'', ''bob''], DATES = [738004, 738011]\<rparr>
     = (Inl StopIteration, \<lparr>USERS = [''ann'', ''bob''], DATES = [738004, 738011]\<rparr>)
   \<and> delay 738011 False 3 \<lparr>USERS = [''ann'', ''bob''], DATES = [738004, 738011]\<rparr>
     = (Inl StopIteration, \<lparr>USERS = [''ann'', ''bob''], DATES = [738004, 738011]\<rparr>)"
  using delay_no_upcoming [of "\<lparr>USERS = [''ann'', ''bob''], DATES = [738004, 738011]\<rparr>" 738011 True 3]
        delay_no_upcoming [of "\<lparr>USERS = [''ann'', ''bob''], DATES = [738004, 738011]\<rparr>" 738011 False 3]
  by simp

subsection \<open>Delaying only the next assignment\<close>

text \<open>C4, as the claim states it, fails: a delay of minus 738004 days is below the gap of
  seven days, so it is not refused with status 400, but the date it would give lies before
  0001-01-01; the addition raises \<open>OverflowError\<close> and nothing is shifted.\<close>

theorem delay_next_overflow:
  "delay 738000 False (- 738004)
      \<lparr>USERS = [''ann'', ''bob'', ''cy''], DATES = [737997, 738004, 738011]\<rparr>
     = (Inl OverflowError,
        \<lparr>USERS = [''ann'', ''bob'', ''cy''], DATES = [737997, 738004, 738011]\<rparr>)"
  by (simp add: delay_def shift_def timedelta_def date_add_def)

text \<open>
  C4, as the code has it. Let every stored date be a date the library can represent, and
  let the first date after today not be the last one. Then \<open>delay\<close> with
  \<open>delay_all = False\<close> aborts with status 400 and leaves users and dates as they were
  exactly when \<open>delay_days\<close> is at least the number of days between that date and the
  following one. Otherwise, when the shifted date is not before 0001-01-01, it succeeds
  and the new date list is the old one with \<open>delay_days\<close> added at that single
  position; when it is, the call raises \<open>OverflowError\<close> and leaves users and dates as
  they were.
\<close>

theorem delay_next_window:
  assumes "first_index (\<lambda>date. date > today) (DATES s) = Some n"
    and "int n \<noteq> int (length (DATES s)) - 1"
    and "\<forall>d \<in> set (DATES s). valid_date d"
  shows "delay today False delay_days s =
     (if delay_days \<ge> DATES s ! (n + 1) - DATES s ! n then (Inl (Abort 400), s)
      else if 1 \<le> DATES s ! n + delay_days
        then (Inr (), s\<lparr>DATES := (DATES s)[n := DATES s ! n + delay_days]\<rparr>)
        else (Inl OverflowError, s))"
proof -
  from first_index_Some [OF assms(1)] have n: "n < length (DATES s)" by simp
  with assms(2) have sn: "Suc n < length (DATES s)" by auto
  have upd: "take n (DATES s) @ [v] @ drop (n + 1) (DATES s) = (DATES s)[n := v]" for v
    using n by (simp add: upd_conv_take_nth_drop)
  from assms(3) n sn have v: "valid_date (DATES s ! n)" "valid_date (DATES s ! Suc n)"
    by simp_all
  show ?thesis
  proof (cases "delay_days \<ge> DATES s ! (n + 1) - DATES s ! n")
    case True
    with assms(1,2) show ?thesis by (simp add: delay_def Let_def)
  next
    case small: False
    show ?thesis
    proof (cases "1 \<le> DATES s ! n + delay_days")
      case True
      with small v have "shift (DATES s ! n) delay_days = Inr (DATES s ! n + delay_days)"
      proof (intro shift_valid)
        from small have "delay_days < DATES s ! Suc n - DATES s ! n" by simp
        with True v show "\<bar>delay_days\<bar> \<le> 999999999"
          unfolding valid_date_def by linarith
        from small True v show "valid_date (DATES s ! n + delay_days)"
          unfolding valid_date_def by simp
      qed
      with small True assms(1,2) upd show ?thesis by (simp add: delay_def Let_def)
    next
      case False
      then have "shift (DATES s ! n) delay_days = Inl OverflowError"
        by (simp add: shift_def timedelta_def date_add_def)
      with small False assms(1,2) show ?thesis by (simp add: delay_def Let_def)
    qed
  qed
qed

theorem delay_next_window_witness:
  "delay 738000 False 7 \<lparr>USERS = [''ann'', ''bob'', ''cy''], DATES = [737997, 738004, 738011]\<rparr>
     = (Inl (Abort 400), \<lparr>USERS = [''ann'', ''bob'', ''cy''], DATES = [737997, 738004, 738011]\<rparr>)
   \<and> delay 738000 False 6 \<lparr>USERS = [''ann'', ''bob'', ''cy''], DATES = [737997, 738004, 738011]\<rparr>
     = (Inr (), \<lparr>USERS = [''ann'', ''bob'', ''cy''], DATES = [737997, 738010, 738011]\<rparr>)"
proof -
  let ?s = "\<lparr>USERS = [''ann'', ''bob'', ''cy''], DATES = [737997, 738004, 738011]\<rparr>"
  have h1: "first_index (\<lambda>date. date > 738000) (DATES ?s) = Some 1" by simp
  have h2: "int 1 \<noteq> int (length (DATES ?s)) - 1" by simp
  have h3: "\<forall>d \<in> set (DATES ?s). valid_date d" by (simp add: valid_date_def)
  from delay_next_window [OF h1 h2 h3, of 7] delay_next_window [OF h1 h2 h3, of 6]
  show ?thesis by simp
qed

subsection \<open>What a delay leaves alone\<close>

lemma delay_outcome:
  assumes "first_index (\<lambda>date. date > today) (DATES s) = Some n"
  shows "(fst (delay today delay_all delay_days s) \<noteq> Inr ()
            \<and> snd (delay today delay_all delay_days s) = s)
         \<or> (\<exists>ds. delay today delay_all delay_days s
                    = (Inr (), s\<lparr>DATES := take n (DATES s) @ ds\<rparr>)
                 \<and> length ds = length (DATES s) - n)"
proof -
  from first_index_Some [OF assms] have n: "n < length (DATES s)" by simp
  show ?thesis
  proof (cases delay_all)
    case True
    show ?thesis
    proof (cases "collect (\<lambda>x. shift x delay_days) (drop n (DATES s))")
      case (Inl e)
      with True assms show ?thesis by (simp add: delay_def)
    next
      case (Inr ds)
      from collect_shift [OF Inr] have "length ds = length (DATES s) - n" by simp
      with Inr True assms show ?thesis
        by (intro disjI2 exI [of _ ds]) (simp add: delay_def)
    qed
  next
    case False
    show ?thesis
    proof (cases "shift (DATES s ! n) delay_days")
      case (Inl e)
      with False assms show ?thesis by (simp add: delay_def Let_def)
    next
      case (Inr d)
      show ?thesis
      proof (cases "int n = int (length (DATES s)) - 1")
        case True
        then have "length [d] = length (DATES s) - n" using n by auto
        with True False assms Inr show ?thesis
          by (intro disjI2 exI [of _ "[d]"]) (simp add: delay_def)
      next
        case nl: False
        show ?thesis
        proof (cases "delay_days \<ge> DATES s ! (n + 1) - DATES s ! n")
          case True
          with nl False assms show ?thesis by (simp add: delay_def Let_def)
        next
          case lt: False
          have "length ([d] @ drop (n + 1) (DATES s)) = length (DATES s) - n"
            using n by simp
          with lt nl False assms Inr show ?thesis
            by (intro disjI2 exI [of _ "[d] @ drop (n + 1) (DATES s)"])
               (simp add: delay_def Let_def)
        qed
      qed
    qed
  qed
qed

text \<open>
  C10. \<open>delay\<close> never changes the users, whether it succeeds or fails. When it
  succeeds, the date list keeps its length, there is a first date after today, and every
  date at an index before that one is unchanged.
\<close>

theorem delay_frame:
  "USERS (snd (delay today delay_all delay_days s)) = USERS s
   \<and> (fst (delay today delay_all delay_days s) = Inr () \<longrightarrow>
        length (DATES (snd (delay today delay_all delay_days s))) = length (DATES s)
        \<and> (\<exists>next_index. first_index (\<lambda>date. date > today) (DATES s) = Some next_index
             \<and> (\<forall>i < next_index. DATES (snd (delay today delay_all delay_days s)) ! i = DATES s ! i)))"
proof (cases "first_index (\<lambda>date. date > today) (DATES s)")
  case None
  then show ?thesis by (simp add: delay_def)
next
  case (Some n)
  from first_index_Some [OF Some] have n: "n < length (DATES s)" by simp
  from delay_outcome [OF Some, of delay_all delay_days] show ?thesis
  proof (elim disjE conjE exE)
    assume "fst (delay today delay_all delay_days s) \<noteq> Inr ()"
      and "snd (delay today delay_all delay_days s) = s"
    then show ?thesis by simp
  next
    fix ds
    assume "delay today delay_all delay_days s = (Inr (), s\<lparr>DATES := take n (DATES s) @ ds\<rparr>)"
      and "length ds = length (DATES s) - n"
    with Some n show ?thesis by (simp add: nth_append)
  qed
qed

theorem delay_frame_witness:
  "USERS (snd (delay 738000 True 2 \<lparr>USERS = [''ann'', ''bob'', ''cy''], DATES = [737997, 738004, 738011]\<rparr>))
     = [''ann'', ''bob'', ''cy'']
   \<and> fst (delay 738000 True 2 \<lparr>USERS = [''ann'', ''bob'', ''cy''], DATES = [737997, 738004, 738011]\<rparr>) = Inr ()
   \<and> DATES (snd (delay 738000 True 2 \<lparr>USERS = [''ann'', ''bob'', ''cy''], DATES = [737997, 738004, 738011]\<rparr>))
     = [737997, 738006, 738013]"
  using delay_frame [of 738000 True 2 "\<lparr>USERS = [''ann'', ''bob'', ''cy''], DATES = [737997, 738004, 738011]\<rparr>"]
  by (simp add: delay_def shift_def timedelta_def date_add_def)

subsection \<open>Swapping two users\<close>

lemma swap_Some:
  assumes "first_index (\<lambda>x. x = user_1) (USERS s) = Some i"
    and "first_index (\<lambda>x. x = user_2) (USERS s) = Some j"
  shows "swap user_1 user_2 s = (Inr (), s\<lparr>USERS := (USERS s)[j := user_1, i := user_2]\<rparr>)"
  using list_index_Some [OF assms(1)] list_index_Some [OF assms(2)]
  by (simp add: swap_def)

lemma first_index_swapped:
  assumes "distinct xs" "i < length xs" "j < length xs"
  shows "first_index (\<lambda>x. x = xs ! i) (xs[j := xs ! i, i := xs ! j]) = Some j"
proof -
  let ?ys = "xs[j := xs ! i, i := xs ! j]"
  have d: "distinct ?ys"
    using assms by (simp add: distinct_swap)
  have "?ys ! j = xs ! i"
    using assms by (cases "i = j") (simp_all add: nth_list_update)
  moreover have "j < length ?ys" using assms by simp
  ultimately show ?thesis
    using first_index_distinct [OF d, of j] by simp
qed

lemma swap_first_positions:
  assumes "first_index (\<lambda>x. x = user_1) (USERS s) = Some i"
    and "first_index (\<lambda>x. x = user_2) (USERS s) = Some j"
  shows "swap user_1 user_2 s = (Inr (), s\<lparr>USERS := (USERS s)[j := user_1, i := user_2]\<rparr>)
         \<and> DATES (snd (swap user_1 user_2 s)) = DATES s
         \<and> (distinct (USERS s) \<longrightarrow>
              swap user_1 user_2 (snd (swap user_1 user_2 s)) = (Inr (), s))
         \<and> swap user_1 user_1 s = (Inr (), s)"
proof -
  note a = list_index_Some [OF assms(1)] and b = list_index_Some [OF assms(2)]
  let ?s' = "s\<lparr>USERS := (USERS s)[j := user_1, i := user_2]\<rparr>"
  have 1: "swap user_1 user_2 s = (Inr (), ?s')"
    by (rule swap_Some [OF assms])
  have 2: "swap user_1 user_1 s = (Inr (), s)"
    using swap_Some [OF assms(1) assms(1)] a list_update_id [of "USERS s" i] by simp
  have 3: "swap user_1 user_2 ?s' = (Inr (), s)" if d: "distinct (USERS s)"
  proof -
    have i': "first_index (\<lambda>x. x = user_1) (USERS ?s') = Some j"
      using first_index_swapped [OF d, of i j] a b by simp
    have "first_index (\<lambda>x. x = USERS s ! j) ((USERS s)[i := USERS s ! j, j := USERS s ! i]) = Some i"
      using first_index_swapped [OF d, of j i] a b by simp
    moreover have "(USERS s)[i := USERS s ! j, j := USERS s ! i] = (USERS s)[j := USERS s ! i, i := USERS s ! j]"
      by (cases "i = j") (simp_all add: list_update_swap)
    ultimately have j': "first_index (\<lambda>x. x = user_2) (USERS ?s') = Some i"
      using a b by simp
    have "(USERS s)[j := user_1, i := user_2, i := user_1, j := user_2] = USERS s"
      using a b list_update_back [of i "USERS s" j] by simp
    with swap_Some [OF i' j'] show ?thesis by simp
  qed
  from 1 2 3 show ?thesis by simp
qed

lemma first_index_mem: "v \<in> set xs \<Longrightarrow> \<exists>i. first_index (\<lambda>x. x = v) xs = Some i"
  by (cases "first_index (\<lambda>x. x = v) xs") (auto simp: first_index_None)

text \<open>
  C7. Let \<open>user_1\<close> and \<open>user_2\<close> both occur in \<open>USERS\<close>, first at the positions \<open>i\<close>
  and \<open>j\<close>. Then \<open>swap\<close> succeeds, puts \<open>user_1\<close> at position \<open>j\<close> and \<open>user_2\<close> at
  position \<open>i\<close>, changes no other position and leaves \<open>DATES\<close> untouched. When the
  users are pairwise different, as the data model requires of a schedule, swapping the
  same pair again gives back the schedule one started from. Swapping a user with itself
  changes nothing.
\<close>

theorem swap_present:
  assumes "user_1 \<in> set (USERS s)" and "user_2 \<in> set (USERS s)"
  shows "\<exists>i j. first_index (\<lambda>x. x = user_1) (USERS s) = Some i
           \<and> first_index (\<lambda>x. x = user_2) (USERS s) = Some j
           \<and> swap user_1 user_2 s = (Inr (), s\<lparr>USERS := (USERS s)[j := user_1, i := user_2]\<rparr>)
           \<and> DATES (snd (swap user_1 user_2 s)) = DATES s
           \<and> (distinct (USERS s) \<longrightarrow>
                swap user_1 user_2 (snd (swap user_1 user_2 s)) = (Inr (), s))
           \<and> swap user_1 user_1 s = (Inr (), s)"
proof -
  from first_index_mem [OF assms(1)] obtain i
    where i: "first_index (\<lambda>x. x = user_1) (USERS s) = Some i" ..
  from first_index_mem [OF assms(2)] obtain j
    where j: "first_index (\<lambda>x. x = user_2) (USERS s) = Some j" ..
  from swap_first_positions [OF i j] i j show ?thesis by blast
qed

theorem swap_present_witness:
  "swap ''ann'' ''cy'' \<lparr>USERS = [''ann'', ''bob'', ''cy''], DATES = [737997, 738004, 738011]\<rparr>
     = (Inr (), \<lparr>USERS = [''cy'', ''bob'', ''ann''], DATES = [737997, 738004, 738011]\<rparr>)
   \<and> swap ''ann'' ''cy'' \<lparr>USERS = [''cy'', ''bob'', ''ann''], DATES = [737997, 738004, 738011]\<rparr>
     = (Inr (), \<lparr>USERS = [''ann'', ''bob'', ''cy''], DATES = [737997, 738004, 738011]\<rparr>)"
proof -
  let ?s = "\<lparr>USERS = [''ann'', ''bob'', ''cy''], DATES = [737997, 738004, 738011]\<rparr>"
  have h1: "''ann'' \<in> set (USERS ?s)" and h2: "''cy'' \<in> set (USERS ?s)" by simp_all
  from swap_present [OF h1 h2] obtain i j
    where i: "first_index (\<lambda>x. x = ''ann'') (USERS ?s) = Some i"
      and j: "first_index (\<lambda>x. x = ''cy'') (USERS ?s) = Some j"
      and 1: "swap ''ann'' ''cy'' ?s = (Inr (), ?s\<lparr>USERS := (USERS ?s)[j := ''ann'', i := ''cy'']\<rparr>)"
      and 2: "distinct (USERS ?s) \<longrightarrow> swap ''ann'' ''cy'' (snd (swap ''ann'' ''cy'' ?s)) = (Inr (), ?s)"
    by blast
  from i j have ij: "i = 0" "j = 2" by simp_all
  from 1 ij have 3: "swap ''ann'' ''cy'' ?s
      = (Inr (), \<lparr>USERS = [''cy'', ''bob'', ''ann''], DATES = [737997, 738004, 738011]\<rparr>)"
    by simp
  from 2 [unfolded 3] 3 show ?thesis by simp
qed

subsection \<open>Deleting a user\<close>

text \<open>
  C1. The comment in \<open>delete_user\<close> announces that a date is removed from the front of
  the list when the user's assignment is past and from the end otherwise. The date it
  compares with today is the one \<open>get_user\<close> returns, which is an ISO string, and the
  comparison of a string with a date raises \<open>TypeError\<close>: for a user that is present,
  whether the assignment is past (ann) or ahead (bob), the call fails and neither list
  changes.
\<close>

theorem delete_user_raises:
  "delete_user 738000 ''ann'' \<lparr>USERS = [''ann'', ''bob''], DATES = [737997, 738004]\<rparr>
     = (Inl TypeError, \<lparr>USERS = [''ann'', ''bob''], DATES = [737997, 738004]\<rparr>)
   \<and> delete_user 738000 ''bob'' \<lparr>USERS = [''ann'', ''bob''], DATES = [737997, 738004]\<rparr>
     = (Inl TypeError, \<lparr>USERS = [''ann'', ''bob''], DATES = [737997, 738004]\<rparr>)"
  by (simp add: delete_user_def get_user_def data_to_dict_def py_dict_def serialize_dates_def
      split: sum.splits)

subsection \<open>Lookup with an end of period\<close>

text \<open>
  C2. When no date lies after \<open>period_end\<close>, the second \<open>next(...)\<close> in \<open>lookup\<close> has
  nothing to return and raises \<open>StopIteration\<close>; unlike the first one it is not inside
  a \<open>try\<close>. Here both dates are within the period and the call fails instead of
  returning both entries.
\<close>

theorem lookup_period_end_raises:
  "lookup 738004 (Some 738011) \<lparr>USERS = [''ann'', ''bob''], DATES = [738004, 738011]\<rparr>
     = Inl StopIteration"
  by (simp add: lookup_def)

subsection \<open>Adding a user that is already there\<close>

text \<open>C6, as the claim states it, fails: \<open>add_user\<close> itself makes no check. Called
  with a name that is present it appends the name a second time, with a new date.\<close>

theorem add_user_appends_duplicate:
  "add_user \<lparr>ASSIGNMENT_WEEKDAY_START = PInt 0, ASSIGNMENT_INTERVAL_DAYS = PInt 7,
             ALLOW_ASSIGNMENT_TO_START_TODAY = PBool False\<rparr> 738000 ''ann''
            \<lparr>USERS = [''ann''], DATES = [738004]\<rparr>
     = (Inr (), \<lparr>USERS = [''ann'', ''ann''], DATES = [738004, 738011]\<rparr>)"
  by (simp add: add_user_def shift_def timedelta_def date_add_def)

text \<open>
  C6, as the code has it. The check is made by the PUT branch of the route: for a name
  that is present it answers \<open>'User already in list'\<close> with status 204, does not call
  \<open>add_user\<close> and leaves users and dates as they were.
\<close>

theorem put_route_rejects_duplicate:
  assumes "username \<in> set (USERS s)"
  shows "get_user_route_PUT cfg today stored username s
           = (Inr (Text ''User already in list'' 204), s)"
  using assms by (auto simp: get_user_route_PUT_def)

theorem put_route_rejects_duplicate_witness:
  "get_user_route_PUT \<lparr>ASSIGNMENT_WEEKDAY_START = PInt 0, ASSIGNMENT_INTERVAL_DAYS = PInt 7,
             ALLOW_ASSIGNMENT_TO_START_TODAY = PBool False\<rparr> 738000 \<lparr>USERS = [], DATES = []\<rparr> ''ann''
            \<lparr>USERS = [''ann''], DATES = [738004]\<rparr>
     = (Inr (Text ''User already in list'' 204), \<lparr>USERS = [''ann''], DATES = [738004]\<rparr>)"
  using put_route_rejects_duplicate [of "''ann''" "\<lparr>USERS = [''ann''], DATES = [738004]\<rparr>"]
  by simp

subsection \<open>The first assignment date\<close>

text \<open>
  C8. The docstring of the \<open>/new\<close> route promises a start on the next day whose
  weekday is \<open>ASSIGNMENT_WEEKDAY_START\<close>, with an interval of
  \<open>ASSIGNMENT_INTERVAL_DAYS\<close>. With the interval set to 3 in the environment the
  constant is the string \<open>'3'\<close> and the modulus raises \<open>TypeError\<close>. Were the constant
  the integer 3, the function would take the difference modulo 3 instead of modulo 7: on
  Thursday 2021-07-29, with the anchor Monday, it returns Sunday 2021-08-01.
\<close>

theorem first_date_configured_interval:
  "get_first_assignment_date
       (load_config [''ASSIGNMENT_INTERVAL_DAYS'' \<mapsto> ''3'']) 738000 = Inl TypeError
   \<and> get_first_assignment_date
       \<lparr>ASSIGNMENT_WEEKDAY_START = PInt 0, ASSIGNMENT_INTERVAL_DAYS = PInt 3,
        ALLOW_ASSIGNMENT_TO_START_TODAY = PBool False\<rparr> 738000 = Inr 738003
   \<and> weekday 738000 = 3 \<and> weekday 738003 = 6"
  by (simp add: get_first_assignment_date_def load_config_def weekday_def
      shift_def timedelta_def date_add_def)

text \<open>With an interval of seven days as an integer, which is the default, and an
  integer anchor from 0 to 6, the date returned falls on the anchor weekday and is the
  first such date on or after today, or strictly after today when a start today is not
  allowed.\<close>

lemma weekday_range: "0 \<le> weekday d \<and> weekday d \<le> 6"
  by (simp add: weekday_def)

lemma weekday_add: "weekday (d + k) = (weekday d + k) mod 7"
  unfolding weekday_def by presburger

lemma week_same:
  fixes a w :: int
  assumes "0 \<le> a" "a \<le> 6" "0 \<le> w" "w \<le> 6" "(a - w) mod 7 = 0"
  shows "w = a"
proof -
  from assms(5) have "7 dvd a - w" by (simp add: dvd_eq_mod_eq_0)
  then obtain q where q: "a - w = 7 * q" ..
  with assms(1-4) have "q = 0" by linarith
  with q show ?thesis by simp
qed

lemma week_step:
  fixes a w :: int
  assumes "0 \<le> a" "a \<le> 6" "0 \<le> w" "w \<le> 6"
  shows "(w + (a - w) mod 7) mod 7 = a"
    and "0 \<le> k \<Longrightarrow> k < (a - w) mod 7 \<Longrightarrow> (w + k) mod 7 \<noteq> a"
    and "0 < k \<Longrightarrow> k < 7 \<Longrightarrow> (a - w) mod 7 = 0 \<Longrightarrow> (w + k) mod 7 \<noteq> a"
proof -
  show "(w + (a - w) mod 7) mod 7 = a"
    using assms by (simp add: mod_simps)
  show "(w + k) mod 7 \<noteq> a" if k: "0 \<le> k" "k < (a - w) mod 7"
  proof
    assume e: "(w + k) mod 7 = a"
    have "(a - w) mod 7 = ((w + k) mod 7 - w) mod 7" using e by simp
    also have "\<dots> = k mod 7" by (simp add: mod_simps)
    finally have "(a - w) mod 7 = k mod 7" .
    moreover have "k < 7" using k(2) pos_mod_bound [of 7 "a - w"] by linarith
    ultimately show False using k by simp
  qed
  show "(w + k) mod 7 \<noteq> a" if k: "0 < k" "k < 7" and z: "(a - w) mod 7 = 0"
  proof
    assume e: "(w + k) mod 7 = a"
    have "w = a" by (rule week_same [OF assms z])
    with e have "(a + k) mod 7 = a mod 7" using assms by simp
    then have "((a + k) - a) mod 7 = (a - a) mod 7"
      by (rule mod_diff_cong) simp
    then have "k mod 7 = 0" by simp
    with k show False by simp
  qed
qed

lemma first_assignment_date_weekly:
  assumes a: "ASSIGNMENT_WEEKDAY_START cfg = PInt a" "0 \<le> a" "a \<le> 6"
    and i: "ASSIGNMENT_INTERVAL_DAYS cfg = PInt 7"
    and t: "valid_date today" "today + 7 \<le> 3652059"
  shows "\<exists>diff. get_first_assignment_date cfg today = Inr (today + diff)
     \<and> weekday (today + diff) = a
     \<and> (if truthy (ALLOW_ASSIGNMENT_TO_START_TODAY cfg) then 0 \<le> diff else 0 < diff)
     \<and> (\<forall>k. (if truthy (ALLOW_ASSIGNMENT_TO_START_TODAY cfg) then 0 \<le> k else 0 < k)
              \<and> k < diff \<longrightarrow> weekday (today + k) \<noteq> a)"
proof -
  let ?w = "weekday today"
  let ?allow = "truthy (ALLOW_ASSIGNMENT_TO_START_TODAY cfg)"
  let ?d = "(a - ?w) mod 7"
  let ?diff = "if ?d = 0 \<and> \<not> ?allow then 7 else ?d"
  note w = weekday_range [of today]
  have w0: "0 \<le> ?w" and w6: "?w \<le> 6" using w by simp_all
  note ws = week_step [OF a(2,3) w0 w6]
  have d: "0 \<le> ?d" "?d < 7" by simp_all
  have range: "0 \<le> ?diff" "?diff \<le> 7" using d by auto
  have "shift today ?diff = Inr (today + ?diff)"
  proof (rule shift_valid)
    from range show "\<bar>?diff\<bar> \<le> 999999999" by linarith
    from range t show "valid_date (today + ?diff)"
      unfolding valid_date_def by linarith
  qed
  then have 1: "get_first_assignment_date cfg today = Inr (today + ?diff)"
    by (simp add: get_first_assignment_date_def a(1) i Let_def)
  have 2: "weekday (today + ?diff) = a"
  proof (cases "?d = 0 \<and> \<not> ?allow")
    case True
    then have "?w = a" using week_same [OF a(2,3) w0 w6] by simp
    with True a(2,3) show ?thesis by (simp add: weekday_add)
  next
    case False
    with ws(1) show ?thesis by (auto simp: weekday_add)
  qed
  have 3: "if ?allow then 0 \<le> ?diff else 0 < ?diff"
    using d by auto
  have 4: "weekday (today + k) \<noteq> a"
    if "(if ?allow then 0 \<le> k else 0 < k) \<and> k < ?diff" for k
  proof (cases "?d = 0 \<and> \<not> ?allow")
    case True
    with that have "0 < k" "k < 7" by simp_all
    from ws(3) [OF this] True show ?thesis by (simp add: weekday_add)
  next
    case False
    with that have k: "k < ?d" by auto
    have "0 \<le> k" using that d False by (cases ?allow) auto
    from ws(2) [OF this k] show ?thesis by (simp add: weekday_add)
  qed
  from 1 2 3 4 show ?thesis by blast
qed

subsection \<open>Invariants of the schedule\<close>

lemma le_date_TypeError: "le_date v d = Inl TypeError"
  by (cases v) simp_all

lemma delete_user_state: "snd (delete_user today username s) = s"
  by (simp add: delete_user_def le_date_TypeError split: sum.splits list.splits prod.splits)

lemma load_config_interval:
  "number (ASSIGNMENT_INTERVAL_DAYS (load_config environ)) = Inr m \<Longrightarrow> m = 7"
  by (simp add: load_config_def split: option.splits)

lemma sorted_le_last: "sorted xs \<Longrightarrow> x \<in> set xs \<Longrightarrow> x \<le> last xs"
  by (induction xs) (auto split: if_splits)

lemma sorted_arith_progression:
  fixes c :: int
  assumes "0 \<le> c"
  shows "sorted (map (\<lambda>i. a + int i * c) [0 ..< n])"
  using assms by (auto simp: sorted_iff_nth_mono mult_right_mono)

lemma get_first_assignment_date_interval:
  "get_first_assignment_date cfg today = Inr d \<Longrightarrow>
     \<exists>m. number (ASSIGNMENT_INTERVAL_DAYS cfg) = Inr m"
  by (auto simp: get_first_assignment_date_def split: sum.splits)

lemma regenerate_outcome:
  "(fst (regenerate cfg today users s) \<noteq> Inr () \<and> snd (regenerate cfg today users s) = s)
   \<or> (\<exists>start m. number (ASSIGNMENT_INTERVAL_DAYS cfg) = Inr m
         \<and> regenerate cfg today users s
             = (Inr (), \<lparr>USERS = users,
                         DATES = map (\<lambda>i. start + int i * m) [0 ..< length users]\<rparr>))"
proof (cases "get_first_assignment_date cfg today")
  case (Inl e)
  then show ?thesis by (simp add: regenerate_def initialize_assignment_def)
next
  case (Inr start)
  from get_first_assignment_date_interval [OF Inr]
  obtain m where m: "number (ASSIGNMENT_INTERVAL_DAYS cfg) = Inr m" ..
  show ?thesis
  proof (cases "collect (\<lambda>i. shift start (int i * m)) [0 ..< length users]")
    case (Inl e)
    with Inr m show ?thesis by (simp add: regenerate_def initialize_assignment_def)
  next
    case ds: (Inr ds)
    have "ds = map (\<lambda>i. start + int i * m) [0 ..< length users]"
      by (rule collect_map [OF _ ds]) (simp add: shift_Inr)
    with Inr m ds show ?thesis
      by (intro disjI2 exI [of _ start] exI [of _ m])
         (simp add: regenerate_def initialize_assignment_def)
  qed
qed

lemma add_user_USERS: "USERS (snd (add_user cfg today username s)) = USERS s @ [username]"
  by (simp add: add_user_def Let_def split: sum.splits)

lemma add_user_DATES:
  "(fst (add_user cfg today username s) \<noteq> Inr ()
      \<and> DATES (snd (add_user cfg today username s)) = DATES s)
   \<or> (\<exists>d. fst (add_user cfg today username s) = Inr ()
         \<and> DATES (snd (add_user cfg today username s)) = DATES s @ [d]
         \<and> (DATES s \<noteq> [] \<longrightarrow>
              (\<exists>m. number (ASSIGNMENT_INTERVAL_DAYS cfg) = Inr m \<and> d = last (DATES s) + m)))"
proof (cases "DATES s = []")
  case True
  then show ?thesis
    by (cases "get_first_assignment_date cfg today") (simp_all add: add_user_def)
next
  case False
  show ?thesis
  proof (cases "number (ASSIGNMENT_INTERVAL_DAYS cfg)")
    case (Inl e)
    with False show ?thesis by (simp add: add_user_def)
  next
    case (Inr m)
    show ?thesis
    proof (cases "shift (last (DATES s)) m")
      case (Inl e)
      with Inr False show ?thesis by (simp add: add_user_def)
    next
      case d: (Inr d)
      from shift_Inr [OF d] d Inr False show ?thesis
        by (intro disjI2 exI [of _ d]) (simp add: add_user_def)
    qed
  qed
qed

lemma delay_USERS: "USERS (snd (delay today delay_all delay_days s)) = USERS s"
proof (cases "first_index (\<lambda>date. date > today) (DATES s)")
  case None
  then show ?thesis by (simp add: delay_def)
next
  case (Some n)
  from delay_outcome [OF Some, of delay_all delay_days] show ?thesis by auto
qed

lemma delay_length:
  "length (DATES (snd (delay today delay_all delay_days s))) = length (DATES s)"
proof (cases "first_index (\<lambda>date. date > today) (DATES s)")
  case None
  then show ?thesis by (simp add: delay_def)
next
  case (Some n)
  from first_index_Some [OF Some] have "n < length (DATES s)" by simp
  with delay_outcome [OF Some, of delay_all delay_days] show ?thesis by auto
qed

lemma sorted_shift_from:
  fixes ds :: "int list"
  assumes "sorted ds" and "0 \<le> c"
  shows "sorted (take n ds @ map (\<lambda>x. x + c) (drop n ds))"
proof -
  have "x \<le> y + c" if "x \<in> set (take n ds)" "y \<in> set (drop n ds)" for x y
  proof -
    have "sorted (take n ds @ drop n ds)" using assms(1) by simp
    then have "x \<le> y" using that unfolding sorted_append by blast
    with assms(2) show ?thesis by simp
  qed
  moreover have "sorted (map (\<lambda>x. x + c) (drop n ds))"
    using assms(1) by (auto simp: sorted_iff_nth_mono)
  ultimately show ?thesis
    using assms(1) by (auto simp: sorted_append)
qed

lemma sorted_shift_one:
  fixes ds :: "int list"
  assumes "sorted ds" and "0 \<le> c" and "Suc n < length ds" and "c < ds ! Suc n - ds ! n"
  shows "sorted (ds[n := ds ! n + c])"
  unfolding sorted_iff_nth_mono
proof (intro allI impI)
  fix i j
  assume ij: "i \<le> j" "j < length (ds[n := ds ! n + c])"
  then have le: "ds ! i \<le> ds ! j" using assms(1) by (simp add: sorted_iff_nth_mono)
  show "ds[n := ds ! n + c] ! i \<le> ds[n := ds ! n + c] ! j"
  proof (cases "i = n")
    case True
    show ?thesis
    proof (cases "j = n")
      case True
      with \<open>i = n\<close> show ?thesis by simp
    next
      case False
      with True ij have "Suc n \<le> j" by simp
      then have "ds ! Suc n \<le> ds ! j" using assms(1) ij by (simp add: sorted_iff_nth_mono)
      with True False ij assms(3,4) show ?thesis by (simp add: nth_list_update)
    qed
  next
    case False
    with ij le assms(2,3) show ?thesis by (auto simp: nth_list_update)
  qed
qed

lemma sorted_delay:
  assumes "sorted (DATES s)" and "0 \<le> delay_days"
  shows "sorted (DATES (snd (delay today delay_all delay_days s)))"
proof (cases "first_index (\<lambda>date. date > today) (DATES s)")
  case None
  with assms show ?thesis by (simp add: delay_def)
next
  case (Some n)
  from first_index_Some [OF Some] have n: "n < length (DATES s)" by simp
  show ?thesis
  proof (cases delay_all)
    case True
    show ?thesis
    proof (cases "collect (\<lambda>x. shift x delay_days) (drop n (DATES s))")
      case (Inl e)
      with True Some assms show ?thesis by (simp add: delay_def)
    next
      case (Inr ds)
      from collect_shift [OF Inr] Inr True Some sorted_shift_from [OF assms, of n]
      show ?thesis by (simp add: delay_def)
    qed
  next
    case False
    show ?thesis
    proof (cases "shift (DATES s ! n) delay_days")
      case (Inl e)
      with False Some assms show ?thesis by (simp add: delay_def Let_def)
    next
      case (Inr d)
      from shift_Inr [OF Inr] have d: "d = DATES s ! n + delay_days" by simp
      show ?thesis
      proof (cases "int n = int (length (DATES s)) - 1")
        case True
        then have "drop n (DATES s) = [DATES s ! n]"
          using n by (simp add: Cons_nth_drop_Suc [symmetric])
        with sorted_shift_from [OF assms, of n] Some False True Inr d show ?thesis
          by (simp add: delay_def)
      next
        case nl: False
        with n have sn: "Suc n < length (DATES s)" by auto
        have upd: "take n (DATES s) @ [v] @ drop (n + 1) (DATES s) = (DATES s)[n := v]" for v
          using n by (simp add: upd_conv_take_nth_drop)
        show ?thesis
        proof (cases "delay_days \<ge> DATES s ! (n + 1) - DATES s ! n")
          case True
          with Some False nl assms show ?thesis by (simp add: delay_def)
        next
          case lt: False
          then have "delay_days < DATES s ! Suc n - DATES s ! n" by simp
          from sorted_shift_one [OF assms sn this] Some False nl lt upd Inr d show ?thesis
            by (simp add: delay_def)
        qed
      qed
    qed
  qed
qed

lemma swap_DATES: "DATES (snd (swap user_1 user_2 s)) = DATES s"
  by (simp add: swap_def Let_def split: sum.splits)

lemma swap_length: "length (USERS (snd (swap user_1 user_2 s))) = length (USERS s)"
  by (simp add: swap_def Let_def split: sum.splits)

lemma swap_distinct:
  assumes "distinct (USERS s)"
  shows "distinct (USERS (snd (swap user_1 user_2 s)))"
proof (cases "first_index (\<lambda>x. x = user_1) (USERS s)")
  case None
  with assms show ?thesis by (simp add: swap_def list_index_def)
next
  case i: (Some i)
  show ?thesis
  proof (cases "first_index (\<lambda>x. x = user_2) (USERS s)")
    case None
    with assms show ?thesis by (simp add: swap_def list_index_def split: sum.splits)
  next
    case j: (Some j)
    note a = list_index_Some [OF i] and b = list_index_Some [OF j]
    from a b have "i < length (USERS s)" "j < length (USERS s)" by simp_all
    then have "distinct ((USERS s)[j := USERS s ! i, i := USERS s ! j])"
      using assms by (simp add: distinct_swap)
    with a b show ?thesis by (simp add: swap_def)
  qed
qed

lemma length_le_step:
  assumes "length (DATES s) \<le> length (USERS s)"
  shows "length (DATES (step cfg c s)) \<le> length (USERS (step cfg c s))"
proof (cases c)
  case (Pair today opn)
  show ?thesis
  proof (cases opn)
    case (Regenerate users)
    with Pair assms regenerate_outcome [of cfg today users s] show ?thesis by auto
  next
    case (AddUser username)
    with Pair assms add_user_DATES [of cfg today username s] show ?thesis
      by (auto simp: add_user_USERS)
  next
    case (DeleteUser username)
    with Pair assms show ?thesis by (simp add: delete_user_state)
  next
    case (Delay delay_all delay_days)
    with Pair assms show ?thesis by (simp add: delay_USERS delay_length)
  next
    case (Swap user_1 user_2)
    with Pair assms show ?thesis by (simp add: swap_DATES swap_length)
  qed
qed

lemma length_eq_step:
  assumes "length (USERS s) = length (DATES s)" and "adds_return cfg (c # cs) s"
  shows "length (USERS (step cfg c s)) = length (DATES (step cfg c s))
         \<and> adds_return cfg cs (step cfg c s)"
proof (cases c)
  case (Pair today opn)
  show ?thesis
  proof (cases opn)
    case (Regenerate users)
    with Pair assms regenerate_outcome [of cfg today users s] show ?thesis by auto
  next
    case (AddUser username)
    with Pair assms add_user_DATES [of cfg today username s] show ?thesis
      by (auto simp: add_user_USERS)
  next
    case (DeleteUser username)
    with Pair assms show ?thesis by (simp add: delete_user_state)
  next
    case (Delay delay_all delay_days)
    with Pair assms show ?thesis by (simp add: delay_USERS delay_length)
  next
    case (Swap user_1 user_2)
    with Pair assms show ?thesis by (simp add: swap_DATES swap_length)
  qed
qed

lemma sorted_step:
  assumes nonneg: "\<And>m. number (ASSIGNMENT_INTERVAL_DAYS cfg) = Inr m \<Longrightarrow> 0 \<le> m"
    and "sorted (DATES s)" and "forward_op (snd c)"
  shows "sorted (DATES (step cfg c s))"
proof (cases c)
  case (Pair today opn)
  show ?thesis
  proof (cases opn)
    case (Regenerate users)
    with Pair assms(2) regenerate_outcome [of cfg today users s] nonneg show ?thesis
      by (auto simp: sorted_arith_progression)
  next
    case (AddUser username)
    from add_user_DATES [of cfg today username s]
    have "sorted (DATES (snd (add_user cfg today username s)))"
    proof (elim disjE conjE exE)
      assume "DATES (snd (add_user cfg today username s)) = DATES s"
      with assms(2) show ?thesis by simp
    next
      fix d
      assume d: "DATES (snd (add_user cfg today username s)) = DATES s @ [d]"
        and l: "DATES s \<noteq> [] \<longrightarrow>
             (\<exists>m. number (ASSIGNMENT_INTERVAL_DAYS cfg) = Inr m \<and> d = last (DATES s) + m)"
      have "x \<le> d" if "x \<in> set (DATES s)" for x
      proof -
        from that have "DATES s \<noteq> []" by auto
        with l obtain m where m: "number (ASSIGNMENT_INTERVAL_DAYS cfg) = Inr m"
          "d = last (DATES s) + m" by auto
        from sorted_le_last [OF assms(2) that] nonneg [OF m(1)] m(2) show ?thesis by simp
      qed
      with d assms(2) show ?thesis by (simp add: sorted_append)
    qed
    with Pair AddUser show ?thesis by simp
  next
    case (DeleteUser username)
    with Pair assms(2) show ?thesis by (simp add: delete_user_state)
  next
    case (Delay delay_all delay_days)
    with Pair assms(2,3) sorted_delay [of s delay_days today delay_all] show ?thesis
      by simp
  next
    case (Swap user_1 user_2)
    with Pair assms(2) show ?thesis by (simp add: swap_DATES)
  qed
qed

lemma distinct_step:
  assumes "distinct (USERS s)" and "fresh_op s (snd c)"
  shows "distinct (USERS (step cfg c s))"
proof (cases c)
  case (Pair today opn)
  show ?thesis
  proof (cases opn)
    case (Regenerate users)
    with Pair assms regenerate_outcome [of cfg today users s] show ?thesis by auto
  next
    case (AddUser username)
    with Pair assms show ?thesis by (simp add: add_user_USERS)
  next
    case (DeleteUser username)
    with Pair assms show ?thesis by (simp add: delete_user_state)
  next
    case (Delay delay_all delay_days)
    with Pair assms show ?thesis by (simp add: delay_USERS)
  next
    case (Swap user_1 user_2)
    with Pair assms swap_distinct [of s user_1 user_2] show ?thesis by simp
  qed
qed

lemma length_le_run:
  "length (DATES s) \<le> length (USERS s) \<Longrightarrow>
     length (DATES (run cfg cs s)) \<le> length (USERS (run cfg cs s))"
  by (induction cs arbitrary: s) (simp_all add: length_le_step)

lemma length_eq_run:
  "length (USERS s) = length (DATES s) \<Longrightarrow> adds_return cfg cs s \<Longrightarrow>
     length (USERS (run cfg cs s)) = length (DATES (run cfg cs s))"
proof (induction cs arbitrary: s)
  case Nil
  then show ?case by simp
next
  case (Cons c cs)
  from length_eq_step [OF Cons.prems] Cons.IH show ?case by simp
qed

lemma sorted_run:
  assumes nonneg: "\<And>m. number (ASSIGNMENT_INTERVAL_DAYS cfg) = Inr m \<Longrightarrow> 0 \<le> m"
  shows "sorted (DATES s) \<Longrightarrow> delays_forward cs \<Longrightarrow> sorted (DATES (run cfg cs s))"
  by (induction cs arbitrary: s) (simp_all add: delays_forward_def sorted_step [OF nonneg])

lemma distinct_run:
  "distinct (USERS s) \<Longrightarrow> names_fresh cfg cs s \<Longrightarrow> distinct (USERS (run cfg cs s))"
  by (induction cs arbitrary: s) (simp_all add: distinct_step)

text \<open>
  C3, as the code has it. Start from the empty schedule, under any environment, and run
  any sequence of calls of \<open>regenerate\<close>, \<open>add_user\<close>, \<open>delete_user\<close>, \<open>delay\<close> and
  \<open>swap\<close>. There are never more dates than users, and there are as many when every
  call of \<open>add_user\<close> in the sequence returned without an exception. The dates are in
  non-decreasing order when no delay in the sequence is negative. No user occurs twice
  when every name added was absent at that moment and every list handed to
  \<open>regenerate\<close> was free of repetitions.
\<close>

theorem invariants_of_runs:
  "length (DATES (run (load_config environ) cs \<lparr>USERS = [], DATES = []\<rparr>))
     \<le> length (USERS (run (load_config environ) cs \<lparr>USERS = [], DATES = []\<rparr>))
   \<and> (adds_return (load_config environ) cs \<lparr>USERS = [], DATES = []\<rparr> \<longrightarrow>
        length (USERS (run (load_config environ) cs \<lparr>USERS = [], DATES = []\<rparr>))
          = length (DATES (run (load_config environ) cs \<lparr>USERS = [], DATES = []\<rparr>)))
   \<and> (delays_forward cs \<longrightarrow>
        sorted (DATES (run (load_config environ) cs \<lparr>USERS = [], DATES = []\<rparr>)))
   \<and> (names_fresh (load_config environ) cs \<lparr>USERS = [], DATES = []\<rparr> \<longrightarrow>
        distinct (USERS (run (load_config environ) cs \<lparr>USERS = [], DATES = []\<rparr>)))"
proof -
  let ?cfg = "load_config environ" and ?e = "\<lparr>USERS = [], DATES = []\<rparr>"
  have nonneg: "0 \<le> m" if "number (ASSIGNMENT_INTERVAL_DAYS ?cfg) = Inr m" for m
    using load_config_interval [OF that] by simp
  have "length (DATES (run ?cfg cs ?e)) \<le> length (USERS (run ?cfg cs ?e))"
    by (rule length_le_run) simp
  moreover have "length (USERS (run ?cfg cs ?e)) = length (DATES (run ?cfg cs ?e))"
    if "adds_return ?cfg cs ?e"
    using that by (intro length_eq_run) simp_all
  moreover have "sorted (DATES (run ?cfg cs ?e))" if "delays_forward cs"
    using that by (intro sorted_run nonneg) simp_all
  moreover have "distinct (USERS (run ?cfg cs ?e))" if "names_fresh ?cfg cs ?e"
    using that by (intro distinct_run) simp_all
  ultimately show ?thesis by blast
qed

theorem invariants_of_runs_witness:
  "adds_return (load_config Map.empty)
      [(738000, AddUser ''ann''), (738000, AddUser ''bob''), (738005, Delay True 2),
       (738005, Swap ''ann'' ''bob'')] \<lparr>USERS = [], DATES = []\<rparr>
   \<and> delays_forward
      [(738000, AddUser ''ann''), (738000, AddUser ''bob''), (738005, Delay True 2),
       (738005, Swap ''ann'' ''bob'')]
   \<and> names_fresh (load_config Map.empty)
      [(738000, AddUser ''ann''), (738000, AddUser ''bob''), (738005, Delay True 2),
       (738005, Swap ''ann'' ''bob'')] \<lparr>USERS = [], DATES = []\<rparr>
   \<and> invariant (run (load_config Map.empty)
      [(738000, AddUser ''ann''), (738000, AddUser ''bob''), (738005, Delay True 2),
       (738005, Swap ''ann'' ''bob'')] \<lparr>USERS = [], DATES = []\<rparr>)"
proof -
  let ?cs = "[(738000, AddUser ''ann''), (738000, AddUser ''bob''), (738005, Delay True 2),
       (738005, Swap ''ann'' ''bob'')]"
  let ?e = "\<lparr>USERS = [], DATES = []\<rparr>"
  have a: "adds_return (load_config Map.empty) ?cs ?e"
    by (simp add: load_config_def add_user_def get_first_assignment_date_def weekday_def
        shift_def timedelta_def date_add_def)
  have b: "delays_forward ?cs" by (simp add: delays_forward_def)
  have c: "names_fresh (load_config Map.empty) ?cs ?e"
    by (simp add: load_config_def add_user_def get_first_assignment_date_def weekday_def
        shift_def timedelta_def date_add_def)
  from invariants_of_runs [of Map.empty ?cs] a b c show ?thesis
    by (simp add: invariant_def)
qed

text \<open>C3, as the claim states it, fails in each of its three parts. Adding the same name
  twice gives a repeated user. A delay of minus ten days moves the second date before the
  first. After a delay that moves the only date to 9999-12-31, adding a second user
  appends the name and then raises \<open>OverflowError\<close>, which leaves two users and one
  date.\<close>

theorem invariant_broken_by_engine_calls:
  "\<not> distinct (USERS (run (load_config Map.empty)
        [(738000, AddUser ''ann''), (738000, AddUser ''ann'')]
        \<lparr>USERS = [], DATES = []\<rparr>))
   \<and> \<not> sorted (DATES (run (load_config Map.empty)
        [(738000, AddUser ''ann''), (738000, AddUser ''bob''), (738000, AddUser ''cy''),
         (738005, Delay False (- 10))]
        \<lparr>USERS = [], DATES = []\<rparr>))
   \<and> length (USERS (run (load_config Map.empty)
        [(738000, AddUser ''ann''), (738000, Delay True 2914055), (738000, AddUser ''bob'')]
        \<lparr>USERS = [], DATES = []\<rparr>))
      \<noteq> length (DATES (run (load_config Map.empty)
        [(738000, AddUser ''ann''), (738000, Delay True 2914055), (738000, AddUser ''bob'')]
        \<lparr>USERS = [], DATES = []\<rparr>))"
  by (simp add: load_config_def add_user_def get_first_assignment_date_def weekday_def
      delay_def shift_def timedelta_def date_add_def)

subsection \<open>Round trip of the stored data\<close>

text \<open>Digits are read back as they were written.\<close>

lemma div_mod_known:
  fixes x k q r :: int
  assumes "x = k * q + r" "0 \<le> r" "r < k"
  shows "x div k = q" and "x mod k = r"
  using assms int_div_pos_eq [of x k q r] int_mod_pos_eq [of x k q r] by simp_all

lemma digit_round: "k < 10 \<Longrightarrow> digit_value (digit_char k) = Some k"
proof -
  assume "k < 10"
  then consider "k = 0" | "k = 1" | "k = 2" | "k = 3" | "k = 4"
    | "k = 5" | "k = 6" | "k = 7" | "k = 8" | "k = 9"
    by atomize_elim arith
  then show ?thesis
    by cases (simp_all add: digit_char_def digit_value_def)
qed

lemma parse_pad2:
  assumes "0 \<le> v" "v < 100"
  shows "parse_digits 0 (pad2 v) = Some (nat v)"
proof -
  let ?x = "nat v"
  have x: "?x < 100" using assms by simp
  then have 1: "?x div 10 mod 10 = ?x div 10" by simp
  have "?x div 10 < 10" using x by simp
  then show ?thesis
    by (simp add: pad2_def digit_round 1)
qed

lemma parse_pad4:
  assumes "0 \<le> v" "v < 10000"
  shows "parse_digits 0 (pad4 v) = Some (nat v)"
proof -
  let ?x = "nat v"
  have x: "?x < 10000" using assms by simp
  have "?x div 1000 mod 10 < 10" "?x div 100 mod 10 < 10" "?x div 10 mod 10 < 10" "?x mod 10 < 10"
    by simp_all
  moreover have "10 * (10 * (10 * (?x div 1000 mod 10) + ?x div 100 mod 10) + ?x div 10 mod 10)
                   + ?x mod 10 = ?x"
  proof -
    have a: "?x div 100 = ?x div 10 div 10" "?x div 1000 = ?x div 10 div 10 div 10"
      by (simp_all add: div_mult2_eq)
    have b: "?x div 10 div 10 div 10 < 10" using x by simp
    show ?thesis unfolding a using b
      by (simp add: mod_less)
  qed
  ultimately show ?thesis
    by (simp add: pad4_def digit_round)
qed


lemma month_day_split:
  fixes n :: int and L :: bool
  assumes "0 \<le> n" "n \<le> 364"
    and month0: "month0 = (n + 50) div 32"
    and prec0: "prec0 = DAYS_BEFORE_MONTH ! nat month0 + (if month0 > 2 \<and> L then 1 else 0)"
    and month: "month = (if prec0 > n then month0 - 1 else month0)"
    and prec: "prec = (if prec0 > n
                       then prec0 - (DAYS_IN_MONTH ! nat (month0 - 1)
                                      + (if month0 - 1 = 2 \<and> L then 1 else 0))
                       else prec0)"
  shows "1 \<le> month \<and> month \<le> 12
         \<and> prec = DAYS_BEFORE_MONTH ! nat month + (if month > 2 \<and> L then 1 else 0)
         \<and> prec \<le> n
         \<and> n < prec + (if month = 2 \<and> L then 29 else DAYS_IN_MONTH ! nat month)"
proof -
  define r where "r = (n + 50) mod 32"
  have r: "0 \<le> r" "r < 32" by (simp_all add: r_def)
  have eq: "n = 32 * month0 + r - 50"
    unfolding month0 r_def by simp
  from eq r assms(1,2) have "1 \<le> month0" "month0 \<le> 12" by linarith+
  then consider "month0 = 1" | "month0 = 2" | "month0 = 3" | "month0 = 4"
    | "month0 = 5" | "month0 = 6" | "month0 = 7" | "month0 = 8"
    | "month0 = 9" | "month0 = 10" | "month0 = 11" | "month0 = 12"
    by atomize_elim arith
  then show ?thesis
    using eq r assms(1,2)
    unfolding month prec prec0 DAYS_BEFORE_MONTH_def DAYS_IN_MONTH_def
    by cases ((cases L; simp), linarith?)+
qed

lemma year_parts:
  fixes a b c e :: int
  assumes "0 \<le> b" "b \<le> 3" "0 \<le> c" "c \<le> 24" "0 \<le> e" "e \<le> 3"
  defines "Y \<equiv> 400 * a + 100 * b + 4 * c + e"
  shows "days_before_year (Y + 1) = 146097 * a + 36524 * b + 1461 * c + 365 * e"
    and "is_leap (Y + 1) \<longleftrightarrow> e = 3 \<and> (c \<noteq> 24 \<or> b = 3)"
proof -
  have d4: "Y div 4 = 100 * a + 25 * b + c"
    by (rule div_mod_known(1) [where r = e]) (use assms in \<open>simp_all add: Y_def\<close>)
  have d100: "Y div 100 = 4 * a + b"
    by (rule div_mod_known(1) [where r = "4 * c + e"]) (use assms in \<open>simp_all add: Y_def\<close>)
  have d400: "Y div 400 = a"
    by (rule div_mod_known(1) [where r = "100 * b + 4 * c + e"])
       (use assms in \<open>simp_all add: Y_def\<close>)
  show "days_before_year (Y + 1) = 146097 * a + 36524 * b + 1461 * c + 365 * e"
    by (simp add: days_before_year_def Let_def d4 d100 d400) (simp add: Y_def)
  have m4: "(Y + 1) mod 4 = 0 \<longleftrightarrow> e = 3"
  proof (cases "e = 3")
    case True
    have "(Y + 1) mod 4 = 0"
      by (rule div_mod_known(2) [where q = "100 * a + 25 * b + c + 1"])
         (use True in \<open>simp_all add: Y_def\<close>)
    with True show ?thesis by simp
  next
    case False
    have "(Y + 1) mod 4 = e + 1"
      by (rule div_mod_known(2) [where q = "100 * a + 25 * b + c"])
         (use False assms in \<open>simp_all add: Y_def\<close>)
    with False assms show ?thesis by simp
  qed
  have m100: "(Y + 1) mod 100 = 0 \<longleftrightarrow> c = 24 \<and> e = 3"
  proof (cases "c = 24 \<and> e = 3")
    case True
    have "(Y + 1) mod 100 = 0"
      by (rule div_mod_known(2) [where q = "4 * a + b + 1"])
         (use True in \<open>simp_all add: Y_def\<close>)
    with True show ?thesis by simp
  next
    case False
    have "(Y + 1) mod 100 = 4 * c + e + 1"
      by (rule div_mod_known(2) [where q = "4 * a + b"])
         (use False assms in \<open>auto simp: Y_def\<close>)
    with False assms show ?thesis by auto
  qed
  have m400: "(Y + 1) mod 400 = 0 \<longleftrightarrow> b = 3 \<and> c = 24 \<and> e = 3"
  proof (cases "b = 3 \<and> c = 24 \<and> e = 3")
    case True
    have "(Y + 1) mod 400 = 0"
      by (rule div_mod_known(2) [where q = "a + 1"])
         (use True in \<open>simp_all add: Y_def\<close>)
    with True show ?thesis by simp
  next
    case False
    have "(Y + 1) mod 400 = 100 * b + 4 * c + e + 1"
      by (rule div_mod_known(2) [where q = a])
         (use False assms in \<open>auto simp: Y_def\<close>)
    with False assms show ?thesis by auto
  qed
  show "is_leap (Y + 1) \<longleftrightarrow> e = 3 \<and> (c \<noteq> 24 \<or> b = 3)"
    unfolding is_leap_def m4 m100 m400 by auto
qed


lemma ord2ymd_correct:
  assumes v: "valid_date d" and o: "ord2ymd d = (year, month, day)"
  shows "1 \<le> year \<and> year \<le> 9999 \<and> 1 \<le> month \<and> month \<le> 12
         \<and> 1 \<le> day \<and> day \<le> days_in_month year month
         \<and> ymd2ord year month day = d"
proof -
  define n where "n = d - 1"
  define a where "a = n div 146097"
  define r1 where "r1 = n mod 146097"
  define b where "b = r1 div 36524"
  define r2 where "r2 = r1 mod 36524"
  define c where "c = r2 div 1461"
  define r3 where "r3 = r2 mod 1461"
  define e where "e = r3 div 365"
  define r4 where "r4 = r3 mod 365"
  define L where "L \<longleftrightarrow> e = 3 \<and> (c \<noteq> 24 \<or> b = 3)"
  define month0 where "month0 = (r4 + 50) div 32"
  define prec0 where
    "prec0 = DAYS_BEFORE_MONTH ! nat month0 + (if month0 > 2 \<and> L then 1 else 0)"
  define month' where "month' = (if prec0 > r4 then month0 - 1 else month0)"
  define prec' where
    "prec' = (if prec0 > r4
              then prec0 - (DAYS_IN_MONTH ! nat (month0 - 1)
                             + (if month0 - 1 = 2 \<and> L then 1 else 0))
              else prec0)"
  have n: "0 \<le> n" "n \<le> 3652058" "d = n + 1"
    using v by (simp_all add: valid_date_def n_def)
  have e1: "n = 146097 * a + r1" "0 \<le> r1" "r1 < 146097" by (simp_all add: a_def r1_def)
  have e2: "r1 = 36524 * b + r2" "0 \<le> r2" "r2 < 36524" by (simp_all add: b_def r2_def)
  have e3: "r2 = 1461 * c + r3" "0 \<le> r3" "r3 < 1461" by (simp_all add: c_def r3_def)
  have e4: "r3 = 365 * e + r4" "0 \<le> r4" "r4 < 365" by (simp_all add: e_def r4_def)
  have lo: "0 \<le> a" "0 \<le> b" "0 \<le> c" "0 \<le> e"
    using n(1) e1(2) e2(2) e3(2)
    by (simp_all add: a_def b_def c_def e_def pos_imp_zdiv_nonneg_iff)
  have hi: "a \<le> 24" "b \<le> 4" "c \<le> 24" "e \<le> 4"
    using n e1 e2 e3 e4 lo by linarith+
  have unfold: "ord2ymd d =
      (if e = 4 \<or> b = 4 then (400 * a + 100 * b + 4 * c + e, 12, 31)
       else (400 * a + 100 * b + 4 * c + e + 1, month', r4 - prec' + 1))"
    unfolding ord2ymd_def Let_def
    unfolding n_def [symmetric] a_def [symmetric] r1_def [symmetric] b_def [symmetric]
      r2_def [symmetric] c_def [symmetric] r3_def [symmetric] e_def [symmetric]
      r4_def [symmetric] L_def [symmetric] month0_def [symmetric] prec0_def [symmetric]
    by (simp add: month'_def prec'_def)
  show ?thesis
  proof (cases "b = 4")
    case True
    with e1 e2 have "r2 = 0" by linarith
    then have z: "c = 0" "e = 0" "r4 = 0" by (simp_all add: c_def r3_def e_def r4_def)
    from unfold o True z have y: "year = (400 * a + 100 * 3 + 4 * 24 + 3) + 1"
      and md: "month = 12" "day = 31" by simp_all
    note p = year_parts [of 3 24 3 a, simplified]
    from n e1 e2 True \<open>r2 = 0\<close> have "a \<le> 23" by linarith
    with lo p y md n e1 e2 True \<open>r2 = 0\<close> show ?thesis
      by (simp add: ymd2ord_def days_in_month_def days_before_month_def
          DAYS_IN_MONTH_def DAYS_BEFORE_MONTH_def)
  next
    case b: False
    with hi have b3: "b \<le> 3" by simp
    show ?thesis
    proof (cases "e = 4")
      case True
      with e3 e4 have r4: "r4 = 0" by linarith
      from e2 e3 e4 True have c23: "c \<le> 23" by linarith
      from unfold o True r4 have y: "year = (400 * a + 100 * b + 4 * c + 3) + 1"
        and md: "month = 12" "day = 31" by simp_all
      note p = year_parts [of b c 3 a, simplified]
      from lo b3 c23 p y md n e1 e2 e3 e4 True r4 hi show ?thesis
        by (simp add: ymd2ord_def days_in_month_def days_before_month_def
            DAYS_IN_MONTH_def DAYS_BEFORE_MONTH_def)
    next
      case False
      with hi have e3': "e \<le> 3" by simp
      from unfold o b False have y: "year = (400 * a + 100 * b + 4 * c + e) + 1"
        and md: "month = month'" "day = r4 - prec' + 1" by simp_all
      note p = year_parts [OF lo(2) b3 lo(3) hi(3) lo(4) e3', of a]
      have r4': "r4 \<le> 364" using e4 by simp
      note s = month_day_split [OF e4(2) r4' month0_def prec0_def month'_def prec'_def]
      have leap: "is_leap year \<longleftrightarrow> L" using p(2) y by (simp add: L_def)
      have yr: "year \<le> 9999"
      proof -
        have "400 * a + 100 * b + 4 * c + e \<le> 9998"
        proof (cases "a = 24")
          case True
          with n e1 e2 e3 e4 b3 e3' hi lo show ?thesis by (cases "b = 3"; cases "c = 24") linarith+
        next
          case False
          with hi b3 e3' show ?thesis by linarith
        qed
        with y show ?thesis by simp
      qed
      have "ymd2ord year month day = d"
        using s p(1) y md n e1 e2 e3 e4 leap
        by (simp add: ymd2ord_def days_before_month_def)
      moreover have "1 \<le> day" "day \<le> days_in_month year month"
        using s md leap by (simp_all add: days_in_month_def)
      moreover have "1 \<le> year" using y lo by simp
      ultimately show ?thesis using s md yr by simp
    qed
  qed
qed

text \<open>The ISO text of a date is read back as the same date.\<close>

lemma length_pad: "length (pad4 v) = 4" "length (pad2 v) = 2"
  by (simp_all add: pad4_def pad2_def)

lemma fromisoformat_isoformat:
  assumes "valid_date d"
  shows "fromisoformat (isoformat d) = Inr d"
proof -
  obtain year month day where o: "ord2ymd d = (year, month, day)"
    by (cases "ord2ymd d") auto
  note c = ord2ymd_correct [OF assms o]
  let ?s = "pad4 year @ ''-'' @ pad2 month @ ''-'' @ pad2 day"
  have s: "isoformat d = ?s" by (simp add: isoformat_def o)
  have len: "length ?s = 10" by (simp add: length_pad)
  have t4: "take 4 ?s = pad4 year" by (simp add: length_pad)
  have t2: "take 2 (drop 5 ?s) = pad2 month" by (simp add: length_pad)
  have d8: "drop 8 ?s = pad2 day" by (simp add: length_pad)
  have n4: "?s ! 4 = CHR ''-''" by (simp add: nth_append length_pad)
  have n7: "?s ! 7 = CHR ''-''" by (simp add: nth_append length_pad)
  have dim: "days_in_month year month \<le> 31"
  proof -
    from c consider "month = 1" | "month = 2" | "month = 3" | "month = 4"
      | "month = 5" | "month = 6" | "month = 7" | "month = 8"
      | "month = 9" | "month = 10" | "month = 11" | "month = 12"
      by atomize_elim arith
    then show ?thesis
      unfolding days_in_month_def DAYS_IN_MONTH_def by cases simp_all
  qed
  have py: "parse_digits 0 (pad4 year) = Some (nat year)"
    using c by (intro parse_pad4) simp_all
  have pm: "parse_digits 0 (pad2 month) = Some (nat month)"
    using c by (intro parse_pad2) simp_all
  have pd: "parse_digits 0 (pad2 day) = Some (nat day)"
    using c dim by (intro parse_pad2) simp_all
  show ?thesis
    unfolding s fromisoformat_def len t4 t2 d8 n4 n7 py pm pd
    using c by (simp add: Let_def)
qed

lemma dict_set_fresh: "k \<notin> fst ` set d \<Longrightarrow> dict_set k v d = d @ [(k, v)]"
  by (induction d) auto

lemma foldl_dict_set_distinct:
  "distinct (map fst kvs) \<Longrightarrow> fst ` set d \<inter> fst ` set kvs = {} \<Longrightarrow>
     foldl (\<lambda>d (k, v). dict_set k v d) d kvs = d @ kvs"
proof (induction kvs arbitrary: d)
  case Nil
  then show ?case by simp
next
  case (Cons kv kvs)
  obtain k v where kv: "kv = (k, v)" by (cases kv)
  from Cons.prems kv have fresh: "k \<notin> fst ` set d" by auto
  have "foldl (\<lambda>d (k, v). dict_set k v d) (d @ [(k, v)]) kvs = (d @ [(k, v)]) @ kvs"
    using Cons.prems kv by (intro Cons.IH) auto
  with fresh kv show ?case by (simp add: dict_set_fresh)
qed

lemma py_dict_distinct: "distinct (map fst kvs) \<Longrightarrow> py_dict kvs = kvs"
  using foldl_dict_set_distinct [of kvs "[]"] by (simp add: py_dict_def)

lemma deserialize_serialized_dates:
  "\<forall>d \<in> set dates. valid_date d \<Longrightarrow>
     deserialize_dates (map JStr (serialize_dates dates)) = Inr dates"
  by (induction dates) (simp_all add: serialize_dates_def fromisoformat_isoformat)

text \<open>
  C9. A stored snapshot is the document \<open>serialize_data\<close> builds with \<open>wide=False\<close>
  (the form \<open>save_data\<close> writes) from a schedule with pairwise different users, as many
  dates as users, and dates the library can represent: the key \<open>assignments\<close> over a
  dictionary from names to ISO dates, in order. Reading such a snapshot with
  \<open>deserialize_data\<close> gives back the users and dates, and serialising these again
  gives back the snapshot.
\<close>

theorem serialize_deserialize_roundtrip:
  assumes "distinct users" and "length users = length dates"
    and "\<forall>d \<in> set dates. valid_date d"
    and "x = serialize_data users dates False"
  shows "deserialize_data x = Inr (users, dates)
         \<and> (case deserialize_data x of
               Inl e \<Rightarrow> False
             | Inr (us, ds) \<Rightarrow> serialize_data us ds False = x)"
proof -
  let ?kvs = "zip users (map JStr (serialize_dates dates))"
  have "map fst ?kvs = users" "map snd ?kvs = map JStr (serialize_dates dates)"
    using assms(2) by (simp_all add: serialize_dates_def)
  moreover from this assms(1) have "py_dict ?kvs = ?kvs"
    by (intro py_dict_distinct) simp
  ultimately have "deserialize_data x = Inr (users, dates)"
    using deserialize_serialized_dates [OF assms(3)]
    by (simp add: assms(4) serialize_data_def data_to_dict_def deserialize_data_def)
  then show ?thesis by (simp add: assms(4))
qed

lemma isoformat_2021_08_02: "isoformat 738004 = ''2021-08-02''"
  by code_simp

lemma isoformat_2021_08_09: "isoformat 738011 = ''2021-08-09''"
  by code_simp

theorem serialize_deserialize_roundtrip_witness:
  "deserialize_data (JDict [(''assignments'',
       JDict [(''ann'', JStr ''2021-08-02''), (''bob'', JStr ''2021-08-09'')])])
     = Inr ([''ann'', ''bob''], [738004, 738011])
   \<and> serialize_data [''ann'', ''bob''] [738004, 738011] False
     = JDict [(''assignments'',
         JDict [(''ann'', JStr ''2021-08-02''), (''bob'', JStr ''2021-08-09'')])]"
proof -
  have x: "JDict [(''assignments'',
         JDict [(''ann'', JStr ''2021-08-02''), (''bob'', JStr ''2021-08-09'')])]
      = serialize_data [''ann'', ''bob''] [738004, 738011] False"
    by (simp add: serialize_data_def data_to_dict_def serialize_dates_def py_dict_def
        isoformat_2021_08_02 isoformat_2021_08_09)
  have "distinct [''ann'', ''bob'']" "length [''ann'', ''bob''] = length [738004, 738011 :: int]"
    "\<forall>d \<in> set [738004, 738011]. valid_date d"
    by (simp_all add: valid_date_def)
  from serialize_deserialize_roundtrip [OF this x] x show ?thesis by simp
qed

end
